theory Spec2Isabelle
  imports Main
begin

section \<open>Cursor pagination over an aggregation pipeline\<close>

text \<open>
  A shallow embedding of \<^verbatim>\<open>src/aggregate-paginated.ts\<close>. The file holds one function,
  \<^verbatim>\<open>aggregatePaginated\<close>; the MongoDB collection it queries and the four helpers it
  imports from \<^verbatim>\<open>./utils\<close> are collaborators, taken here as parameters.
\<close>

subsection \<open>Data model\<close>

text \<open>
  Modelled from the spec: the type \<^verbatim>\<open>Sort\<close> of \<^verbatim>\<open>./types\<close>, which is not among the sources.
  It is an ordered mapping from field name to direction (1 ascending, -1 descending).
  Order matters, so it is an association list.
\<close>

type_synonym Sort = "(string \<times> int) list"

text \<open>
  Modelled from the spec: the error kinds. Every rejection of the promise is a value:
  the helper \<^verbatim>\<open>normalizeDirectionParams\<close> may throw (a malformed cursor, a missing
  limit), and each of the two queries may fail in the data source.
\<close>

datatype error = MalformedCursor | MissingLimit | DataSourceError

text \<open>
  The argument of the \<^verbatim>\<open>$match\<close> stage: the empty object \<^verbatim>\<open>{}\<close>, which matches every
  document, or the query object \<^verbatim>\<open>buildQueryFromCursor\<close> returned.
\<close>

datatype 'q filter = EmptyFilter | Query 'q

text \<open>
  A stage of the aggregation pipeline. The caller's stages are opaque objects
  (\<^verbatim>\<open>{ [key: string]: any }\<close>); the function appends four stages of its own.
\<close>

datatype ('p, 'q) stage =
    Custom 'p
  | Match "'q filter"
  | Skip int
  | SortStage Sort
  | Limit nat

text \<open>
  The filter handed to \<^verbatim>\<open>countDocuments\<close> is \<^verbatim>\<open>{ filters: { ...pipeline } }\<close>. Spreading
  an array into an object literal copies its own enumerable properties, the indices:
  the object maps \<^verbatim>\<open>0, 1, ...\<close> to the stages.
\<close>

datatype ('p, 'q) count_filter = Filters "(nat \<times> ('p, 'q) stage) list"

definition spread :: "'a list \<Rightarrow> (nat \<times> 'a) list" where
  "spread xs = zip [0 ..< length xs] xs"

text \<open>
  The collection, reduced to the two operations the function calls. Each answers with
  a value or fails. \<^verbatim>\<open>aggregate(...).toArray()\<close> is one operation here.
\<close>

record ('p, 'q, 'd) Collection =
  countDocuments :: "('p, 'q) count_filter \<Rightarrow> error + nat"
  aggregate :: "('p, 'q) stage list \<Rightarrow> error + 'd list"

text \<open>
  The helpers of \<^verbatim>\<open>./utils\<close>, as the function uses them. \<^verbatim>\<open>normalizeDirectionParams\<close>
  takes the object \<^verbatim>\<open>{ first, after, last, before, sort }\<close> (its fields in this order)
  and returns \<^verbatim>\<open>{ limit, cursor, sort, paginatingBackwards }\<close>, a tuple here, or throws.
  \<^verbatim>\<open>limit\<close> is a page size: the function uses it as an array index and as a slice
  bound, and the data source takes \<^verbatim>\<open>limit + 1\<close> as the argument of \<^verbatim>\<open>$limit\<close>, which must
  be a positive integer; so it is a natural number. The decoded cursor is an object or
  \<^verbatim>\<open>null\<close>. The other three helpers are taken to return a value.
\<close>

record ('d, 'cur, 'q) Utils =
  buildCursor :: "'d \<Rightarrow> Sort \<Rightarrow> 'cur"
  buildQueryFromCursor :: "Sort \<Rightarrow> 'cur \<Rightarrow> 'q"
  encodeCursor :: "'cur \<Rightarrow> string"
  normalizeDirectionParams ::
    "int option \<Rightarrow> string option \<Rightarrow> int option \<Rightarrow> string option \<Rightarrow> Sort
      \<Rightarrow> error + (nat \<times> 'cur option \<times> Sort \<times> bool)"

text \<open>
  \<^verbatim>\<open>AggregatePaginatedParams\<close>. An optional field that is \<^verbatim>\<open>undefined\<close> or \<^verbatim>\<open>null\<close> is
  \<open>None\<close>. The fields \<^verbatim>\<open>last\<close> and \<^verbatim>\<open>sort\<close> carry a suffix, since HOL has constants of
  these names. A \<^verbatim>\<open>number\<close> is an integer here.
\<close>

record ('p, 'q) AggregatePaginatedParams =
  first :: "int option"
  after :: "string option"
  last_arg :: "int option"
  skip :: "int option"
  before :: "string option"
  pipeline :: "('p, 'q) stage list"
  sort_arg :: "Sort option"

record 'd Edge =
  cursor :: string
  node :: 'd

record PageInfo =
  count :: nat
  totalCount :: nat
  startCursor :: "string option"
  endCursor :: "string option"
  hasPreviousPage :: bool
  hasNextPage :: bool

record 'd AggregatePaginatedResult =
  edges :: "'d Edge list"
  pageInfo :: PageInfo

subsection \<open>JavaScript primitives the function relies on\<close>

text \<open>
  \<^verbatim>\<open>Boolean(s)\<close> for \<^verbatim>\<open>s: string | null | undefined\<close>: only a non-empty string is truthy.
\<close>

definition Boolean :: "string option \<Rightarrow> bool" where
  "Boolean s = (case s of None \<Rightarrow> False | Some str \<Rightarrow> str \<noteq> [])"

text \<open>
  \<^verbatim>\<open>xs[i]\<close>: reading an array past its end does not fail, it yields \<^verbatim>\<open>undefined\<close>.
\<close>

definition index :: "'a list \<Rightarrow> nat \<Rightarrow> 'a option" where
  "index xs i = (if i < length xs then Some (xs ! i) else None)"

text \<open>\<^verbatim>\<open>xs.slice(0, n)\<close> for a natural number \<^verbatim>\<open>n\<close>: the first \<^verbatim>\<open>n\<close> elements, or all.\<close>

definition slice0 :: "'a list \<Rightarrow> nat \<Rightarrow> 'a list" where
  "slice0 xs n = take n xs"

subsection \<open>The function\<close>

text \<open>
  \<^verbatim>\<open>sort: originalSort = {}\<close> in the parameter pattern: the default applies when the field
  is \<^verbatim>\<open>undefined\<close>.
\<close>

definition originalSort :: "('p, 'q) AggregatePaginatedParams \<Rightarrow> Sort" where
  "originalSort params = (case sort_arg params of None \<Rightarrow> [] | Some s \<Rightarrow> s)"

text \<open>
  Lines 75 to 82, each local constant as a function of what it reads. Documents are
  objects, so \<^verbatim>\<open>Boolean(extraDocument)\<close> is true exactly when the slot holds one.
  \<^verbatim>\<open>reverse()\<close> works in place on the sliced copy.
\<close>

definition extraDocument :: "'d list \<Rightarrow> nat \<Rightarrow> 'd option" where
  "extraDocument allDocuments limit = index allDocuments limit"

definition hasMore :: "'d list \<Rightarrow> nat \<Rightarrow> bool" where
  "hasMore allDocuments limit = (extraDocument allDocuments limit \<noteq> None)"

definition desiredDocuments :: "'d list \<Rightarrow> nat \<Rightarrow> bool \<Rightarrow> 'd list" where
  "desiredDocuments allDocuments limit paginatingBackwards =
     (let sliced = slice0 allDocuments limit
      in if paginatingBackwards then rev sliced else sliced)"

text \<open>
  The body. A throw of the normaliser rejects the promise before any query is issued.
  \<^verbatim>\<open>Promise.all\<close> rejects when either query fails; which failure is reported when both
  fail is a matter of timing, and the model reports the count's. \<^verbatim>\<open>count || 0\<close> replaces
  a falsy count, which for a number is zero. \<^verbatim>\<open>edges[0]?.cursor ?? null\<close> is the first
  edge's cursor or \<^verbatim>\<open>null\<close>; with no edge, \<^verbatim>\<open>edges[edges.length - 1]\<close> reads index -1,
  which no array has.
\<close>

definition aggregatePaginated ::
  "('d, 'cur, 'q) Utils \<Rightarrow> ('p, 'q, 'd) Collection \<Rightarrow> ('p, 'q) AggregatePaginatedParams
    \<Rightarrow> error + 'd AggregatePaginatedResult" where
  "aggregatePaginated utils collection params =
    (case normalizeDirectionParams utils (first params) (after params) (last_arg params)
            (before params) (originalSort params) of
      Inl e \<Rightarrow> Inl e
    | Inr (limit, cursor', sort', paginatingBackwards) \<Rightarrow>
       (case countDocuments collection (Filters (spread (pipeline params))) of
         Inl e \<Rightarrow> Inl e
       | Inr count' \<Rightarrow>
          (case aggregate collection
                  (pipeline params @
                    [Match (case cursor' of
                              Some c \<Rightarrow> Query (buildQueryFromCursor utils sort' c)
                            | None \<Rightarrow> EmptyFilter),
                     Skip (case skip params of Some s \<Rightarrow> s | None \<Rightarrow> 0),
                     SortStage sort',
                     Limit (limit + 1)]) of
            Inl e \<Rightarrow> Inl e
          | Inr allDocuments \<Rightarrow>
             (let desired = desiredDocuments allDocuments limit paginatingBackwards;
                  edges' = map (\<lambda>document.
                             \<lparr>cursor = encodeCursor utils (buildCursor utils document sort'),
                              node = document\<rparr>) desired
              in Inr \<lparr>edges = edges',
                      pageInfo =
                        \<lparr>count = length desired,
                         totalCount = (if count' = 0 then 0 else count'),
                         startCursor = map_option cursor (index edges' 0),
                         endCursor =
                           (if edges' = [] then None
                            else map_option cursor (index edges' (length edges' - 1))),
                         hasPreviousPage =
                           (if paginatingBackwards then hasMore allDocuments limit
                            else Boolean (after params)),
                         hasNextPage =
                           (if paginatingBackwards then Boolean (before params)
                            else hasMore allDocuments limit)\<rparr>\<rparr>))))"

text \<open>
  Names for the two requests a call sends, used to state what a call does: the filter of
  the count (lines 56 to 60), and the stages of the data query (lines 61 to 71) for the
  limit, cursor and sort the normaliser returned.
\<close>

definition countQuery :: "('p, 'q) AggregatePaginatedParams \<Rightarrow> ('p, 'q) count_filter" where
  "countQuery params = Filters (spread (pipeline params))"

definition dataQuery ::
  "('d, 'cur, 'q) Utils \<Rightarrow> ('p, 'q) AggregatePaginatedParams \<Rightarrow> nat \<Rightarrow> 'cur option \<Rightarrow> Sort
    \<Rightarrow> ('p, 'q) stage list" where
  "dataQuery utils params limit cursor' sort' =
     pipeline params @
       [Match (case cursor' of
                 Some c \<Rightarrow> Query (buildQueryFromCursor utils sort' c)
               | None \<Rightarrow> EmptyFilter),
        Skip (case skip params of Some s \<Rightarrow> s | None \<Rightarrow> 0),
        SortStage sort',
        Limit (limit + 1)]"

text \<open>The normaliser's answer for a call.\<close>

definition normalized ::
  "('d, 'cur, 'q) Utils \<Rightarrow> ('p, 'q) AggregatePaginatedParams
    \<Rightarrow> error + (nat \<times> 'cur option \<times> Sort \<times> bool)" where
  "normalized utils params =
     normalizeDirectionParams utils (first params) (after params) (last_arg params)
       (before params) (originalSort params)"

subsection \<open>The helpers of utils, modelled from the specification\<close>

text \<open>
  The module \<^verbatim>\<open>./utils\<close> is not among the sources. The definitions of this subsection
  follow the specification's description of its functions; they give the theorems about
  \<^verbatim>\<open>aggregatePaginated\<close> concrete helpers to run with, and they are what the round trip
  of the cursor codec is stated about.
\<close>

text \<open>
  Modelled from the spec: the values a sort field may hold (strings, numbers, dates,
  identifiers), with \<^verbatim>\<open>null\<close> for a field the document lacks. Numbers and dates are
  integers here (a date as its epoch milliseconds).
\<close>

datatype Value = VNull | VNumber int | VString string | VDate int | VId string

text \<open>
  Modelled from the spec: a document as an ordered list of fields, and a position as the
  ordered mapping from each field of the active SortSpec to the document's value there.
\<close>

type_synonym Document = "(string \<times> Value) list"

type_synonym Position = "(string \<times> Value) list"

text \<open>
  Modelled from the spec: \<^verbatim>\<open>buildCursor\<close>, absent from the sources. It reads the sort
  fields in order; the directions play no part.
\<close>

definition specBuildCursor :: "Document \<Rightarrow> Sort \<Rightarrow> Position" where
  "specBuildCursor document sort' =
     map (\<lambda>(field, direction).
            (field, case map_of document field of Some v \<Rightarrow> v | None \<Rightarrow> VNull)) sort'"

text \<open>
  Modelled from the spec: the serialisation under the cursor codec, absent from the
  sources. The specification asks for an ordered key-value encoding under base64 with a
  URL-safe alphabet. A string is written as its length in decimal, a colon and its
  characters; an integer as its sign, its decimal digits and a semicolon; a value as a
  one-letter tag and its payload; a field as its name and its value.
\<close>

definition digitChar :: "nat \<Rightarrow> char" where
  "digitChar d = ''0123456789'' ! d"

text \<open>
  Modelled from the spec: the codec's test for a decimal digit of the payload.
\<close>

definition isDigit :: "char \<Rightarrow> bool" where
  "isDigit c = (c \<in> set ''0123456789'')"

text \<open>
  Modelled from the spec: the codec's value of a decimal digit.
\<close>

definition digitVal :: "char \<Rightarrow> nat" where
  "digitVal c = (case map_of (zip ''0123456789'' [0 ..< 10]) c of Some d \<Rightarrow> d | None \<Rightarrow> 0)"

text \<open>
  Modelled from the spec: the codec's decimal numeral of a natural number, most
  significant digit first.
\<close>

fun digits :: "nat \<Rightarrow> string" where
  "digits n = (if n < 10 then [digitChar n] else digits (n div 10) @ [digitChar (n mod 10)])"

declare digits.simps [simp del]

text \<open>
  Modelled from the spec: the codec's reader of a decimal numeral; it stops at the first
  character that is not a digit and returns the rest.
\<close>

fun readDigits :: "nat \<Rightarrow> string \<Rightarrow> nat \<times> string" where
  "readDigits acc [] = (acc, [])"
| "readDigits acc (c # cs) =
     (if isDigit c then readDigits (10 * acc + digitVal c) cs else (acc, c # cs))"

text \<open>
  Modelled from the spec: the codec's encoding of a string, length first.
\<close>

definition encString :: "string \<Rightarrow> string" where
  "encString s = digits (length s) @ '':'' @ s"

text \<open>
  Modelled from the spec: the codec's decoding of a string; it fails when the colon is
  missing or the payload is shorter than the length says.
\<close>

definition decString :: "string \<Rightarrow> (string \<times> string) option" where
  "decString s =
     (case readDigits 0 s of
        (n, c # rest) \<Rightarrow>
          if c = CHR '':'' \<and> n \<le> length rest then Some (take n rest, drop n rest) else None
      | (n, []) \<Rightarrow> None)"

text \<open>
  Modelled from the spec: the codec's encoding of an integer.
\<close>

definition encInt :: "int \<Rightarrow> string" where
  "encInt i = (if i < 0 then ''-'' else ''+'') @ digits (nat \<bar>i\<bar>) @ '';''"

text \<open>
  Modelled from the spec: the codec's decoding of an integer; it fails without a sign or
  without the closing semicolon.
\<close>

definition decInt :: "string \<Rightarrow> (int \<times> string) option" where
  "decInt s =
     (case s of
        [] \<Rightarrow> None
      | sign # body \<Rightarrow>
          if sign = CHR ''+'' \<or> sign = CHR ''-'' then
            (case readDigits 0 body of
               (n, c # rest) \<Rightarrow>
                 if c = CHR '';'' then Some (if sign = CHR ''-'' then - int n else int n, rest)
                 else None
             | (n, []) \<Rightarrow> None)
          else None)"

text \<open>
  Modelled from the spec: the codec's encoding of a value, tagged by its kind.
\<close>

fun encValue :: "Value \<Rightarrow> string" where
  "encValue VNull = ''z''"
| "encValue (VNumber i) = ''n'' @ encInt i"
| "encValue (VString s) = ''s'' @ encString s"
| "encValue (VDate i) = ''d'' @ encInt i"
| "encValue (VId s) = ''i'' @ encString s"

text \<open>
  Modelled from the spec: the codec's decoding of a value; it fails on an unknown tag.
\<close>

definition decValue :: "string \<Rightarrow> (Value \<times> string) option" where
  "decValue s =
     (case s of
        [] \<Rightarrow> None
      | tag # body \<Rightarrow>
          if tag = CHR ''z'' then Some (VNull, body)
          else if tag = CHR ''n'' then map_option (\<lambda>(i, rest). (VNumber i, rest)) (decInt body)
          else if tag = CHR ''s'' then map_option (\<lambda>(t, rest). (VString t, rest)) (decString body)
          else if tag = CHR ''d'' then map_option (\<lambda>(i, rest). (VDate i, rest)) (decInt body)
          else if tag = CHR ''i'' then map_option (\<lambda>(t, rest). (VId t, rest)) (decString body)
          else None)"

text \<open>
  Modelled from the spec: the codec's encoding of one field of a position.
\<close>

definition encField :: "string \<times> Value \<Rightarrow> string" where
  "encField kv = encString (fst kv) @ encValue (snd kv)"

text \<open>
  Modelled from the spec: the codec's decoding of one field of a position.
\<close>

definition decField :: "string \<Rightarrow> ((string \<times> Value) \<times> string) option" where
  "decField s =
     (case decString s of
        None \<Rightarrow> None
      | Some (k, rest) \<Rightarrow>
          (case decValue rest of None \<Rightarrow> None | Some (v, rest') \<Rightarrow> Some ((k, v), rest')))"

text \<open>
  Modelled from the spec: the serialised position, its fields in order.
\<close>

definition serialize :: "Position \<Rightarrow> string" where
  "serialize p = concat (map encField p)"

text \<open>The parser consumes input: what it hands back is shorter than what it was given.\<close>

lemma readDigits_length: "length (snd (readDigits acc s)) \<le> length s"
  by (induction s arbitrary: acc) (auto intro: le_SucI)

lemma decString_shorter:
  assumes "decString s = Some (k, rest)"
  shows "length rest < length s"
proof -
  obtain n r where nr: "readDigits 0 s = (n, r)"
    by (cases "readDigits 0 s")
  with assms obtain r' where r: "r = CHR '':'' # r'" and rest: "rest = drop n r'"
    by (auto simp: decString_def split: list.splits if_splits)
  from readDigits_length [of 0 s] nr r have "Suc (length r') \<le> length s"
    by simp
  with rest show ?thesis
    by simp
qed

lemma decInt_shorter:
  assumes "decInt s = Some (i, rest)"
  shows "length rest < length s"
proof -
  from assms obtain sign body where s: "s = sign # body"
    by (cases s) (auto simp: decInt_def)
  obtain n r where nr: "readDigits 0 body = (n, r)"
    by (cases "readDigits 0 body")
  with assms s have "r = CHR '';'' # rest"
    by (auto simp: decInt_def split: list.splits if_splits)
  with readDigits_length [of 0 body] nr s show ?thesis
    by simp
qed

lemma decValue_shorter:
  assumes "decValue s = Some (v, rest)"
  shows "length rest < length s"
proof -
  from assms obtain tag body where s: "s = tag # body"
    by (cases s) (auto simp: decValue_def)
  with assms have "rest = body \<or> (\<exists>i. decInt body = Some (i, rest))
      \<or> (\<exists>t. decString body = Some (t, rest))"
    by (auto simp: decValue_def split: if_splits)
  with s show ?thesis
    by (auto dest: decInt_shorter decString_shorter)
qed

lemma decField_shorter:
  assumes "decField s = Some (kv, rest)"
  shows "length rest < length s"
proof -
  from assms obtain k r v where "decString s = Some (k, r)" and "decValue r = Some (v, rest)"
    by (auto simp: decField_def split: option.splits)
  then show ?thesis
    by (auto dest!: decString_shorter decValue_shorter)
qed

text \<open>
  Modelled from the spec: the parser of a serialised position, field by field until the
  input ends; it fails when a field does not parse.
\<close>

function deserialize :: "string \<Rightarrow> Position option" where
  "deserialize s =
     (if s = [] then Some []
      else (case decField s of
              None \<Rightarrow> None
            | Some (kv, rest) \<Rightarrow>
                (case deserialize rest of None \<Rightarrow> None | Some p \<Rightarrow> Some (kv # p))))"
  by pat_completeness auto
termination
  by (relation "measure length") (auto dest: decField_shorter)

declare deserialize.simps [simp del]

text \<open>
  Modelled from the spec: base64 with the URL-safe alphabet and no padding, over the
  bytes of the serialised position.
\<close>

definition b64Alphabet :: string where
  "b64Alphabet = ''ABCDEFGHIJKLMNOPQRSTUVWXYZabcdefghijklmnopqrstuvwxyz0123456789-_''"

text \<open>
  Modelled from the spec: the base64 character of a sextet.
\<close>

definition b64Char :: "nat \<Rightarrow> char" where
  "b64Char n = b64Alphabet ! n"

text \<open>
  Modelled from the spec: the sextet of a base64 character, none for a character outside
  the alphabet.
\<close>

definition b64Index :: "char \<Rightarrow> nat option" where
  "b64Index c = map_of (zip b64Alphabet [0 ..< 64]) c"

text \<open>
  Modelled from the spec: base64 encoding of a list of bytes, three bytes to four
  characters, without padding.
\<close>

fun b64Encode :: "nat list \<Rightarrow> string" where
  "b64Encode [] = []"
| "b64Encode [a] = [b64Char (a div 4), b64Char ((a mod 4) * 16)]"
| "b64Encode [a, b] =
     [b64Char (a div 4), b64Char ((a mod 4) * 16 + b div 16), b64Char ((b mod 16) * 4)]"
| "b64Encode (a # b # c # rest) =
     [b64Char (a div 4), b64Char ((a mod 4) * 16 + b div 16),
      b64Char ((b mod 16) * 4 + c div 64), b64Char (c mod 64)] @ b64Encode rest"

text \<open>
  Modelled from the spec: the bytes of a list of sextets; a single trailing sextet is
  malformed.
\<close>

fun b64Bytes :: "nat list \<Rightarrow> nat list option" where
  "b64Bytes [] = Some []"
| "b64Bytes [x] = None"
| "b64Bytes [x, y] = Some [x * 4 + y div 16]"
| "b64Bytes [x, y, z] = Some [x * 4 + y div 16, (y mod 16) * 16 + z div 4]"
| "b64Bytes (x # y # z # w # rest) =
     (case b64Bytes rest of
        None \<Rightarrow> None
      | Some bytes \<Rightarrow>
          Some ([x * 4 + y div 16, (y mod 16) * 16 + z div 4, (z mod 4) * 64 + w] @ bytes))"

text \<open>
  Modelled from the spec: base64 decoding; it fails on a character outside the alphabet
  and on a malformed length.
\<close>

definition b64Decode :: "string \<Rightarrow> nat list option" where
  "b64Decode s =
     (case those (map b64Index s) of None \<Rightarrow> None | Some sextets \<Rightarrow> b64Bytes sextets)"

text \<open>
  Modelled from the spec: \<^verbatim>\<open>encodeCursor\<close> and \<^verbatim>\<open>decodeCursor\<close>, absent from the sources.
  Decoding fails with \<^verbatim>\<open>MalformedCursor\<close> when the string is not base64 or its payload is
  not a serialised position.
\<close>

definition specEncodeCursor :: "Position \<Rightarrow> string" where
  "specEncodeCursor p = b64Encode (map of_char (serialize p))"

text \<open>
  Modelled from the spec: \<^verbatim>\<open>decodeCursor\<close>, absent from the
  sources, the inverse of \<^verbatim>\<open>encodeCursor\<close>.
\<close>

definition specDecodeCursor :: "string \<Rightarrow> error + Position" where
  "specDecodeCursor s =
     (case b64Decode s of
        None \<Rightarrow> Inl MalformedCursor
      | Some bytes \<Rightarrow>
          (case deserialize (map char_of bytes) of
             None \<Rightarrow> Inl MalformedCursor
           | Some p \<Rightarrow> Inr p))"

text \<open>
  Modelled from the spec: \<^verbatim>\<open>buildQueryFromCursor\<close>, absent from the sources. The seek
  predicate is a disjunction, one disjunct per sort field: the fields before it equal
  the cursor's values, and the field itself is beyond the cursor's value in the
  direction of the sort.
\<close>

datatype Condition = FieldEq string Value | FieldGt string Value | FieldLt string Value

type_synonym RangeQuery = "Condition list list"

text \<open>
  Modelled from the spec: the cursor's value for a sort field,
  \<^verbatim>\<open>null\<close> when it has none.
\<close>

definition valueAt :: "Position \<Rightarrow> string \<Rightarrow> Value" where
  "valueAt p field = (case map_of p field of Some v \<Rightarrow> v | None \<Rightarrow> VNull)"

definition specBuildQueryFromCursor :: "Sort \<Rightarrow> Position \<Rightarrow> RangeQuery" where
  "specBuildQueryFromCursor sort' p =
     map (\<lambda>i. map (\<lambda>(field, direction). FieldEq field (valueAt p field)) (take i sort') @
               [case sort' ! i of
                  (field, direction) \<Rightarrow>
                    if 0 < direction then FieldGt field (valueAt p field)
                    else FieldLt field (valueAt p field)])
       [0 ..< length sort']"

text \<open>
  Modelled from the spec: \<^verbatim>\<open>normalizeDirectionParams\<close>, absent from the sources. The
  specification leaves three policies to the implementer; they are fixed here as
  follows. The call is backward when \<^verbatim>\<open>last\<close> or \<^verbatim>\<open>before\<close> is supplied. The limit is
  \<^verbatim>\<open>first ?? last\<close>, and a missing or negative limit fails with \<^verbatim>\<open>MissingLimit\<close>. The
  tie-break field is \<^verbatim>\<open>_id\<close>, appended ascending to a SortSpec that lacks it, before the
  directions are inverted for a backward call.
\<close>

definition tieBreakField :: string where
  "tieBreakField = ''_id''"

text \<open>
  Modelled from the spec: the inversion of every direction of a SortSpec.
\<close>

definition invertSort :: "Sort \<Rightarrow> Sort" where
  "invertSort sort' = map (\<lambda>(field, direction). (field, - direction)) sort'"

text \<open>
  Modelled from the spec: the SortSpec with the tie-break field appended when it lacks it.
\<close>

definition withTieBreak :: "Sort \<Rightarrow> Sort" where
  "withTieBreak sort' =
     (if tieBreakField \<in> set (map fst sort') then sort' else sort' @ [(tieBreakField, 1)])"

text \<open>
  Modelled from the spec: \<^verbatim>\<open>normalizeDirectionParams\<close> itself, with
  the policies stated above.
\<close>

definition specNormalizeDirectionParams ::
  "int option \<Rightarrow> string option \<Rightarrow> int option \<Rightarrow> string option \<Rightarrow> Sort
    \<Rightarrow> error + (nat \<times> Position option \<times> Sort \<times> bool)" where
  "specNormalizeDirectionParams firstArg afterArg lastArg beforeArg sort' =
     (let isBackward = (lastArg \<noteq> None \<or> beforeArg \<noteq> None);
          wanted = (case firstArg of Some n \<Rightarrow> Some n | None \<Rightarrow> lastArg);
          token = (case afterArg of Some a \<Rightarrow> Some a | None \<Rightarrow> beforeArg);
          total = withTieBreak sort';
          active = (if isBackward then invertSort total else total)
      in case wanted of
           None \<Rightarrow> Inl MissingLimit
         | Some n \<Rightarrow>
             if n < 0 then Inl MissingLimit
             else (case token of
                     None \<Rightarrow> Inr (nat n, None, active, isBackward)
                   | Some t \<Rightarrow>
                       (case specDecodeCursor t of
                          Inl e \<Rightarrow> Inl e
                        | Inr p \<Rightarrow> Inr (nat n, Some p, active, isBackward))))"

text \<open>
  Modelled from the spec: the module \<^verbatim>\<open>./utils\<close> as
  \<^verbatim>\<open>aggregatePaginated\<close> imports it, made of the four helpers
  above.
\<close>

definition specUtils :: "(Document, Position, RangeQuery) Utils" where
  "specUtils =
     \<lparr>buildCursor = specBuildCursor,
      buildQueryFromCursor = specBuildQueryFromCursor,
      encodeCursor = specEncodeCursor,
      normalizeDirectionParams = specNormalizeDirectionParams\<rparr>"

text \<open>
  A data source for running the function: it reports \<open>n\<close> matching documents and
  answers exactly one data query, \<open>q\<close>, with the list \<open>docs\<close>; any other query fails.
\<close>

definition cannedCollection ::
  "nat \<Rightarrow> ('p, 'q) stage list \<Rightarrow> 'd list \<Rightarrow> ('p, 'q, 'd) Collection" where
  "cannedCollection n q docs =
     \<lparr>countDocuments = (\<lambda>f. Inr n),
      aggregate = (\<lambda>stages. if stages = q then Inr docs else Inl DataSourceError)\<rparr>"

text \<open>Documents and requests to run the function on.\<close>

definition doc :: "int \<Rightarrow> string \<Rightarrow> Document" where
  "doc i name = [(''_id'', VNumber i), (''name'', VString name)]"

definition request :: "(unit, RangeQuery) AggregatePaginatedParams" where
  "request =
     \<lparr>first = None, after = None, last_arg = None, skip = None, before = None,
      pipeline = [Custom ()], sort_arg = None\<rparr>"

text \<open>
  A forward call for a page of two with no cursor and the default sort, on a data source
  that holds a third document; and a backward call for the two documents before a
  cursor under a sort by name, on a data source that holds a third one before them.
\<close>

definition forwardCall :: "(unit, RangeQuery) AggregatePaginatedParams" where
  "forwardCall = request\<lparr>first := Some 2\<rparr>"

definition forwardDocs :: "Document list" where
  "forwardDocs = [doc 1 ''a'', doc 2 ''b'', doc 3 ''c'']"

definition forwardStages :: "(unit, RangeQuery) stage list" where
  "forwardStages =
     [Custom (), Match EmptyFilter, Skip 0, SortStage [(''_id'', 1)], Limit 3]"

definition backwardCall :: "(unit, RangeQuery) AggregatePaginatedParams" where
  "backwardCall =
     request\<lparr>last_arg := Some 2,
             before := Some (specEncodeCursor [(''name'', VString ''d''), (''_id'', VNumber 4)]),
             sort_arg := Some [(''name'', 1)]\<rparr>"

definition backwardDocs :: "Document list" where
  "backwardDocs = [doc 3 ''c'', doc 2 ''b'', doc 1 ''a'']"

definition backwardStages :: "(unit, RangeQuery) stage list" where
  "backwardStages =
     [Custom (),
      Match (Query [[FieldLt ''name'' (VString ''d'')],
                    [FieldEq ''name'' (VString ''d''), FieldLt ''_id'' (VNumber 4)]]),
      Skip 0, SortStage [(''name'', - 1), (''_id'', - 1)], Limit 3]"

definition idOf :: "Document \<Rightarrow> int" where
  "idOf d = (case map_of d ''_id'' of Some (VNumber i) \<Rightarrow> i | _ \<Rightarrow> 0)"







text \<open>The pages the two calls return.\<close>

definition forwardPage :: "Document AggregatePaginatedResult" where
  "forwardPage =
     \<lparr>edges = [\<lparr>cursor = ''MzpfaWRuKzE7'', node = doc 1 ''a''\<rparr>,
               \<lparr>cursor = ''MzpfaWRuKzI7'', node = doc 2 ''b''\<rparr>],
      pageInfo =
        \<lparr>count = 2, totalCount = 10, startCursor = Some ''MzpfaWRuKzE7'',
         endCursor = Some ''MzpfaWRuKzI7'', hasPreviousPage = False, hasNextPage = True\<rparr>\<rparr>"

definition backwardPage :: "Document AggregatePaginatedResult" where
  "backwardPage =
     \<lparr>edges = [\<lparr>cursor = ''NDpuYW1lczE6YjM6X2lkbisyOw'', node = doc 2 ''b''\<rparr>,
               \<lparr>cursor = ''NDpuYW1lczE6YzM6X2lkbiszOw'', node = doc 3 ''c''\<rparr>],
      pageInfo =
        \<lparr>count = 2, totalCount = 10, startCursor = Some ''NDpuYW1lczE6YjM6X2lkbisyOw'',
         endCursor = Some ''NDpuYW1lczE6YzM6X2lkbiszOw'', hasPreviousPage = True,
         hasNextPage = True\<rparr>\<rparr>"

section \<open>What a call computes\<close>

text \<open>
  When the normaliser and both queries answer, the call returns the connection built
  from the fetched list; and a call that returns had all three answers.
\<close>

lemma aggregatePaginated_run:
  assumes "normalized u p = Inr (limit, cur, s, bw)"
    and "countDocuments c (countQuery p) = Inr k"
    and "aggregate c (dataQuery u p limit cur s) = Inr docs"
  shows "aggregatePaginated u c p =
    Inr \<lparr>edges = map (\<lambda>d. \<lparr>cursor = encodeCursor u (buildCursor u d s), node = d\<rparr>)
                   (desiredDocuments docs limit bw),
         pageInfo =
           \<lparr>count = length (desiredDocuments docs limit bw),
            totalCount = k,
            startCursor =
              map_option cursor
                (index (map (\<lambda>d. \<lparr>cursor = encodeCursor u (buildCursor u d s), node = d\<rparr>)
                          (desiredDocuments docs limit bw)) 0),
            endCursor =
              (if desiredDocuments docs limit bw = [] then None
               else map_option cursor
                 (index (map (\<lambda>d. \<lparr>cursor = encodeCursor u (buildCursor u d s), node = d\<rparr>)
                           (desiredDocuments docs limit bw))
                    (length (desiredDocuments docs limit bw) - 1))),
            hasPreviousPage = (if bw then hasMore docs limit else Boolean (after p)),
            hasNextPage = (if bw then Boolean (before p) else hasMore docs limit)\<rparr>\<rparr>"
  using assms
  by (simp add: aggregatePaginated_def normalized_def countQuery_def dataQuery_def Let_def)

lemma aggregatePaginated_InrD:
  assumes "aggregatePaginated u c p = Inr r"
  shows "\<exists>limit cur s bw k docs. normalized u p = Inr (limit, cur, s, bw)
     \<and> countDocuments c (countQuery p) = Inr k
     \<and> aggregate c (dataQuery u p limit cur s) = Inr docs"
  using assms
  by (auto simp: aggregatePaginated_def normalized_def countQuery_def dataQuery_def Let_def
      split: sum.splits prod.splits)

lemma answered:
  assumes "aggregatePaginated u c p = Inr r"
    and "normalized u p = Inr (limit, cur, s, bw)"
  shows "\<exists>k docs. countDocuments c (countQuery p) = Inr k
     \<and> aggregate c (dataQuery u p limit cur s) = Inr docs"
  using aggregatePaginated_InrD [OF assms(1)] assms(2) by auto

lemma returned_nodes:
  assumes "normalized u p = Inr (limit, cur, s, bw)"
    and "aggregate c (dataQuery u p limit cur s) = Inr docs"
    and "aggregatePaginated u c p = Inr r"
  shows "map node (edges r) = desiredDocuments docs limit bw"
proof -
  from answered [OF assms(3) assms(1)] obtain k
    where "countDocuments c (countQuery p) = Inr k"
    by blast
  from aggregatePaginated_run [OF assms(1) this assms(2)] assms(3) show ?thesis
    by (auto simp: comp_def)
qed

lemma returned_flags:
  assumes "normalized u p = Inr (limit, cur, s, bw)"
    and "aggregate c (dataQuery u p limit cur s) = Inr docs"
    and "aggregatePaginated u c p = Inr r"
  shows "hasPreviousPage (pageInfo r) = (if bw then hasMore docs limit else Boolean (after p))
       \<and> hasNextPage (pageInfo r) = (if bw then Boolean (before p) else hasMore docs limit)"
proof -
  from answered [OF assms(3) assms(1)] obtain k
    where k: "countDocuments c (countQuery p) = Inr k"
    by blast
  from aggregatePaginated_run [OF assms(1) k assms(2)] assms(3) show ?thesis
    by auto
qed

lemma normalized_skip: "normalized u (p\<lparr>skip := sk\<rparr>) = normalized u p"
  by (simp add: normalized_def originalSort_def)

lemma hasMore_iff: "hasMore docs limit \<longleftrightarrow> limit < length docs"
  by (simp add: hasMore_def extraDocument_def index_def)

lemma desiredDocuments_eq:
  "desiredDocuments docs limit bw = (if bw then rev (take limit docs) else take limit docs)"
  by (simp add: desiredDocuments_def slice0_def)

text \<open>The canned data source, and the two calls on it.\<close>

lemma canned_count: "countDocuments (cannedCollection n q docs) f = Inr n"
  by (simp add: cannedCollection_def)

lemma canned_aggregate: "aggregate (cannedCollection n q docs) q = Inr docs"
  by (simp add: cannedCollection_def)

lemma forward_normalized:
  "normalized specUtils forwardCall = Inr (2, None, [(''_id'', 1)], False)"
  by code_simp

lemma forward_query: "dataQuery specUtils forwardCall 2 None [(''_id'', 1)] = forwardStages"
  by code_simp

lemma forward_page:
  "aggregatePaginated specUtils (cannedCollection 10 forwardStages forwardDocs) forwardCall
     = Inr forwardPage"
  by code_simp

lemma backward_normalized:
  "normalized specUtils backwardCall =
     Inr (2, Some [(''name'', VString ''d''), (''_id'', VNumber 4)],
          [(''name'', - 1), (''_id'', - 1)], True)"
  by code_simp

lemma backward_query:
  "dataQuery specUtils backwardCall 2 (Some [(''name'', VString ''d''), (''_id'', VNumber 4)])
     [(''name'', - 1), (''_id'', - 1)] = backwardStages"
  by code_simp

lemma backward_page:
  "aggregatePaginated specUtils (cannedCollection 10 backwardStages backwardDocs) backwardCall
     = Inr backwardPage"
  by code_simp

lemma forward_fetched:
  "aggregate (cannedCollection n forwardStages docs)
     (dataQuery specUtils forwardCall 2 None [(''_id'', 1)]) = Inr docs"
  by (simp add: forward_query canned_aggregate)

lemma backward_fetched:
  "aggregate (cannedCollection n backwardStages docs)
     (dataQuery specUtils backwardCall 2
        (Some [(''name'', VString ''d''), (''_id'', VNumber 4)])
        [(''name'', - 1), (''_id'', - 1)]) = Inr docs"
  by (simp add: backward_query canned_aggregate)




text \<open>
  The helpers of the specification: the position reads the field names of the SortSpec
  only, so inverting the directions leaves it as it is; and the normaliser returns the
  caller's SortSpec with the tie-break field, inverted exactly on a backward call.
\<close>

lemma specBuildCursor_fields:
  assumes "map fst a = map fst b"
  shows "specBuildCursor d a = specBuildCursor d b"
proof -
  from assms
  have "map (\<lambda>field. (field, case map_of d field of Some v \<Rightarrow> v | None \<Rightarrow> VNull)) (map fst a)
      = map (\<lambda>field. (field, case map_of d field of Some v \<Rightarrow> v | None \<Rightarrow> VNull)) (map fst b)"
    by (rule arg_cong)
  then show ?thesis
    by (simp add: specBuildCursor_def split_def comp_def)
qed

lemma fields_invertSort: "map fst (invertSort s) = map fst s"
  by (simp add: invertSort_def split_def comp_def)

lemma specBuildCursor_invertSort: "specBuildCursor d (invertSort s) = specBuildCursor d s"
  by (rule specBuildCursor_fields) (rule fields_invertSort)

lemma spec_normalized_sort:
  assumes "normalized specUtils p = Inr (limit, cur, s, bw)"
  shows "s = (if bw then invertSort (withTieBreak (originalSort p))
              else withTieBreak (originalSort p))"
  using assms
  by (auto simp: normalized_def specUtils_def specNormalizeDirectionParams_def Let_def
      split: option.splits sum.splits if_splits)

text \<open>
  So with the helpers of the specification every cursor of every page is the encoding of
  the position under the caller's SortSpec with the tie-break field, whatever the
  direction.
\<close>

lemma spec_edge_cursors:
  assumes "aggregatePaginated specUtils c p = Inr r"
  shows "edges r =
     map (\<lambda>d. \<lparr>cursor = specEncodeCursor (specBuildCursor d (withTieBreak (originalSort p))),
               node = d\<rparr>)
       (map node (edges r))"
proof -
  from aggregatePaginated_InrD [OF assms] obtain limit cur s bw k docs
    where n: "normalized specUtils p = Inr (limit, cur, s, bw)"
      and k: "countDocuments c (countQuery p) = Inr k"
      and d: "aggregate c (dataQuery specUtils p limit cur s) = Inr docs"
    by blast
  from spec_normalized_sort [OF n]
  have "specBuildCursor x s = specBuildCursor x (withTieBreak (originalSort p))" for x
    by (simp add: specBuildCursor_invertSort)
  with aggregatePaginated_run [OF n k d] assms show ?thesis
    by (auto simp: comp_def specUtils_def)
qed

section \<open>The claims\<close>

text \<open>
  C3. For every call that returns, \<^verbatim>\<open>hasPreviousPage\<close> is the overfetch signal
  \<^verbatim>\<open>hasMore\<close> when the call paginates backward and \<^verbatim>\<open>Boolean(after)\<close> otherwise;
  \<^verbatim>\<open>hasNextPage\<close> is \<^verbatim>\<open>Boolean(before)\<close> when it paginates backward and \<^verbatim>\<open>hasMore\<close>
  otherwise. \<^verbatim>\<open>Boolean\<close> of an absent or empty string is false.
\<close>

theorem page_flags:
  assumes "normalized u p = Inr (limit, cur, s, bw)"
    and "aggregate c (dataQuery u p limit cur s) = Inr docs"
    and "aggregatePaginated u c p = Inr r"
  shows "hasPreviousPage (pageInfo r) = (if bw then hasMore docs limit else Boolean (after p))
       \<and> hasNextPage (pageInfo r) = (if bw then Boolean (before p) else hasMore docs limit)"
  by (rule returned_flags [OF assms])

theorem page_flags_witness:
  "hasPreviousPage (pageInfo backwardPage) = hasMore backwardDocs 2
     \<and> hasNextPage (pageInfo backwardPage) = Boolean (before backwardCall)
     \<and> hasMore backwardDocs 2 \<and> Boolean (before backwardCall)"
proof -
  have flags: "hasPreviousPage (pageInfo backwardPage) = hasMore backwardDocs 2
      \<and> hasNextPage (pageInfo backwardPage) = Boolean (before backwardCall)"
    using page_flags [OF backward_normalized backward_fetched backward_page] by simp
  have "hasMore backwardDocs 2" and "Boolean (before backwardCall)"
    by code_simp+
  with flags show ?thesis
    by simp
qed

text \<open>
  C4. When the fetched list has \<open>limit + 1\<close> entries, the last one is the extra
  document: it sets \<^verbatim>\<open>hasMore\<close>, which the page reports at the end the scan runs
  towards, and it is left out of the page, whose nodes are the first \<open>limit\<close> entries
  (reversed on a backward call). Nothing else of the result reads it: a data source
  that answers with any other document in that slot yields the same result.
\<close>

theorem extra_document_discarded:
  assumes "normalized u p = Inr (limit, cur, s, bw)"
    and "countDocuments c (countQuery p) = Inr k"
    and "aggregate c (dataQuery u p limit cur s) = Inr docs"
    and "length docs = limit + 1"
  shows "\<exists>r. aggregatePaginated u c p = Inr r
      \<and> extraDocument docs limit = Some (last docs)
      \<and> hasMore docs limit
      \<and> (if bw then hasPreviousPage (pageInfo r) else hasNextPage (pageInfo r))
      \<and> slice0 docs limit = butlast docs
      \<and> map node (edges r) = (if bw then rev (take limit docs) else take limit docs)
      \<and> count (pageInfo r) = limit
      \<and> (\<forall>x c'. countDocuments c' (countQuery p) = Inr k
             \<and> aggregate c' (dataQuery u p limit cur s) = Inr (butlast docs @ [x])
            \<longrightarrow> aggregatePaginated u c' p = Inr r)"
proof -
  from assms(4) have ne: "docs \<noteq> []"
    by auto
  from assms(4) have take: "take limit docs = butlast docs"
    by (simp add: butlast_conv_take)
  from assms(4) ne have extra: "extraDocument docs limit = Some (last docs)"
    by (simp add: extraDocument_def index_def last_conv_nth)
  from assms(4) have more: "hasMore docs limit"
    by (simp add: hasMore_iff)
  let ?r = "\<lparr>edges = map (\<lambda>d. \<lparr>cursor = encodeCursor u (buildCursor u d s), node = d\<rparr>)
                   (desiredDocuments docs limit bw),
         pageInfo =
           \<lparr>count = length (desiredDocuments docs limit bw),
            totalCount = k,
            startCursor =
              map_option cursor
                (index (map (\<lambda>d. \<lparr>cursor = encodeCursor u (buildCursor u d s), node = d\<rparr>)
                          (desiredDocuments docs limit bw)) 0),
            endCursor =
              (if desiredDocuments docs limit bw = [] then None
               else map_option cursor
                 (index (map (\<lambda>d. \<lparr>cursor = encodeCursor u (buildCursor u d s), node = d\<rparr>)
                           (desiredDocuments docs limit bw))
                    (length (desiredDocuments docs limit bw) - 1))),
            hasPreviousPage = (if bw then hasMore docs limit else Boolean (after p)),
            hasNextPage = (if bw then Boolean (before p) else hasMore docs limit)\<rparr>\<rparr>"
  have run: "aggregatePaginated u c p = Inr ?r"
    by (rule aggregatePaginated_run [OF assms(1) assms(2) assms(3)])
  have flag: "if bw then hasPreviousPage (pageInfo ?r) else hasNextPage (pageInfo ?r)"
    using more by simp
  have nodes: "map node (edges ?r) = (if bw then rev (take limit docs) else take limit docs)"
    by (simp add: comp_def desiredDocuments_eq)
  have cnt: "count (pageInfo ?r) = limit"
    using assms(4) by (simp add: desiredDocuments_eq)
  have other: "aggregatePaginated u c' p = Inr ?r"
    if c': "countDocuments c' (countQuery p) = Inr k"
      "aggregate c' (dataQuery u p limit cur s) = Inr (butlast docs @ [x])" for x c'
  proof -
    from assms(4) have len: "length (butlast docs) = limit"
      by simp
    then have same: "desiredDocuments (butlast docs @ [x]) limit bw = desiredDocuments docs limit bw"
      by (simp add: desiredDocuments_eq take)
    from len have more': "hasMore (butlast docs @ [x]) limit"
      by (simp add: hasMore_iff)
    from aggregatePaginated_run [OF assms(1) c'] show ?thesis
      by (simp add: same more more')
  qed
  have sliced: "slice0 docs limit = butlast docs"
    by (simp add: slice0_def take)
  from run extra more flag sliced nodes cnt other show ?thesis
    by blast
qed

theorem extra_document_discarded_witness:
  "length backwardDocs = 2 + 1
     \<and> aggregatePaginated specUtils (cannedCollection 10 backwardStages backwardDocs) backwardCall
         = Inr backwardPage
     \<and> extraDocument backwardDocs 2 = Some (doc 1 ''a'')
     \<and> hasPreviousPage (pageInfo backwardPage)
     \<and> map node (edges backwardPage) = [doc 2 ''b'', doc 3 ''c'']
     \<and> aggregatePaginated specUtils
           (cannedCollection 10 backwardStages [doc 3 ''c'', doc 2 ''b'', doc 0 ''z''])
           backwardCall
         = Inr backwardPage"
proof -
  have len: "length backwardDocs = 2 + 1"
    by code_simp
  from extra_document_discarded [OF backward_normalized
      canned_count [of 10 backwardStages backwardDocs] backward_fetched len]
  obtain r where r: "aggregatePaginated specUtils
        (cannedCollection 10 backwardStages backwardDocs) backwardCall = Inr r"
    and flag: "hasPreviousPage (pageInfo r)"
    and other: "\<And>x c'. countDocuments c' (countQuery backwardCall) = Inr 10 \<Longrightarrow>
        aggregate c' (dataQuery specUtils backwardCall 2
            (Some [(''name'', VString ''d''), (''_id'', VNumber 4)])
            [(''name'', - 1), (''_id'', - 1)]) = Inr (butlast backwardDocs @ [x]) \<Longrightarrow>
        aggregatePaginated specUtils c' backwardCall = Inr r"
    by auto
  from r backward_page have eq: "r = backwardPage"
    by simp
  have swap: "butlast backwardDocs @ [doc 0 ''z''] = [doc 3 ''c'', doc 2 ''b'', doc 0 ''z'']"
    by (simp add: backwardDocs_def)
  have "aggregatePaginated specUtils
      (cannedCollection 10 backwardStages [doc 3 ''c'', doc 2 ''b'', doc 0 ''z'']) backwardCall
        = Inr r"
    by (rule other [of _ "doc 0 ''z''", OF canned_count]) (simp add: backward_fetched swap)
  moreover have "extraDocument backwardDocs 2 = Some (doc 1 ''a'')"
    and "map node (edges backwardPage) = [doc 2 ''b'', doc 3 ''c'']"
    by code_simp+
  ultimately show ?thesis
    using len backward_page flag eq by simp
qed

text \<open>
  C9. Reading the slot at index \<open>limit\<close> never fails. When the fetched list has at most
  \<open>limit\<close> entries the slot is empty, \<^verbatim>\<open>hasMore\<close> is false, and every fetched document is
  on the page. A \<^verbatim>\<open>$limit\<close> of \<open>limit + 1\<close> bounds the fetched list; within that bound
  \<^verbatim>\<open>hasMore\<close> is true exactly when the list has \<open>limit + 1\<close> entries.
\<close>

theorem probe_slot:
  assumes "normalized u p = Inr (limit, cur, s, bw)"
    and "aggregate c (dataQuery u p limit cur s) = Inr docs"
    and "aggregatePaginated u c p = Inr r"
  shows "(length docs \<le> limit \<longrightarrow>
            extraDocument docs limit = None
          \<and> \<not> hasMore docs limit
          \<and> \<not> (if bw then hasPreviousPage (pageInfo r) else hasNextPage (pageInfo r))
          \<and> map node (edges r) = (if bw then rev docs else docs)
          \<and> count (pageInfo r) = length docs)
       \<and> (length docs \<le> limit + 1 \<longrightarrow> (hasMore docs limit \<longleftrightarrow> length docs = limit + 1))"
proof -
  from answered [OF assms(3) assms(1)] obtain k
    where k: "countDocuments c (countQuery p) = Inr k"
    by blast
  note run = aggregatePaginated_run [OF assms(1) k assms(2)]
  have short: "extraDocument docs limit = None
      \<and> \<not> hasMore docs limit
      \<and> \<not> (if bw then hasPreviousPage (pageInfo r) else hasNextPage (pageInfo r))
      \<and> map node (edges r) = (if bw then rev docs else docs)
      \<and> count (pageInfo r) = length docs" if "length docs \<le> limit"
  proof -
    from that have none: "extraDocument docs limit = None" and no: "\<not> hasMore docs limit"
      by (simp_all add: hasMore_iff extraDocument_def index_def)
    from that have all: "desiredDocuments docs limit bw = (if bw then rev docs else docs)"
      by (simp add: desiredDocuments_eq)
    from run assms(3) no have "\<not> (if bw then hasPreviousPage (pageInfo r) else hasNextPage (pageInfo r))"
      by auto
    moreover from run assms(3) all have "count (pageInfo r) = length docs"
      by auto
    moreover from returned_nodes [OF assms] all
    have "map node (edges r) = (if bw then rev docs else docs)"
      by simp
    ultimately show ?thesis
      using none no by simp
  qed
  have "hasMore docs limit \<longleftrightarrow> length docs = limit + 1" if "length docs \<le> limit + 1"
    using that by (auto simp: hasMore_iff)
  with short show ?thesis
    by blast
qed

theorem probe_slot_witness:
  "length [doc 1 ''a''] \<le> (2::nat)
     \<and> extraDocument [doc 1 ''a''] 2 = None
     \<and> \<not> hasMore [doc 1 ''a''] 2
     \<and> aggregatePaginated specUtils (cannedCollection 1 forwardStages [doc 1 ''a'']) forwardCall
         = Inr \<lparr>edges = [\<lparr>cursor = ''MzpfaWRuKzE7'', node = doc 1 ''a''\<rparr>],
                pageInfo = \<lparr>count = 1, totalCount = 1, startCursor = Some ''MzpfaWRuKzE7'',
                  endCursor = Some ''MzpfaWRuKzE7'', hasPreviousPage = False,
                  hasNextPage = False\<rparr>\<rparr>
     \<and> length forwardDocs = 2 + 1
     \<and> hasMore forwardDocs 2"
proof -
  let ?r = "\<lparr>edges = [\<lparr>cursor = ''MzpfaWRuKzE7'', node = doc 1 ''a''\<rparr>],
                pageInfo = \<lparr>count = 1, totalCount = 1, startCursor = Some ''MzpfaWRuKzE7'',
                  endCursor = Some ''MzpfaWRuKzE7'', hasPreviousPage = False,
                  hasNextPage = False\<rparr>\<rparr>"
  have page: "aggregatePaginated specUtils
      (cannedCollection 1 forwardStages [doc 1 ''a'']) forwardCall = Inr ?r"
    by code_simp
  have len: "length [doc 1 ''a''] \<le> (2::nat)"
    by simp
  from probe_slot [OF forward_normalized forward_fetched page] len
  have short: "extraDocument [doc 1 ''a''] 2 = None \<and> \<not> hasMore [doc 1 ''a''] 2"
    by simp
  have full: "length forwardDocs = 2 + 1"
    by (simp add: forwardDocs_def)
  from probe_slot [OF forward_normalized forward_fetched forward_page] full
  have "hasMore forwardDocs 2"
    by simp
  with short page len full show ?thesis
    by simp
qed

text \<open>
  C5. The nodes of the returned edges are the first \<open>limit\<close> fetched documents, in the
  fetched order on a forward call and reversed on a backward call. The backward query
  sorts by the inverted SortSpec: whenever the fetched list is ordered by the converse
  of an order, the returned edges are ordered by that order itself.
\<close>

theorem backward_page_reversed:
  assumes "normalized u p = Inr (limit, cur, s, bw)"
    and "aggregate c (dataQuery u p limit cur s) = Inr docs"
    and "aggregatePaginated u c p = Inr r"
  shows "map node (edges r) = (if bw then rev (slice0 docs limit) else slice0 docs limit)
       \<and> (bw \<longrightarrow> (\<forall>le. sorted_wrt (\<lambda>a b. le b a) docs \<longrightarrow> sorted_wrt le (map node (edges r))))
       \<and> (\<not> bw \<longrightarrow> (\<forall>le. sorted_wrt le docs \<longrightarrow> sorted_wrt le (map node (edges r))))"
proof -
  have nodes: "map node (edges r) = (if bw then rev (slice0 docs limit) else slice0 docs limit)"
    using returned_nodes [OF assms] by (simp add: desiredDocuments_def)
  have "sorted_wrt le (map node (edges r))"
    if "bw" and "sorted_wrt (\<lambda>a b. le b a) docs" for le
  proof -
    from that(2) have "sorted_wrt (\<lambda>a b. le b a) (take limit docs)"
      by (rule sorted_wrt_take)
    then have "sorted_wrt le (rev (take limit docs))"
      by (simp add: sorted_wrt_rev)
    with nodes that(1) show ?thesis
      by (simp add: slice0_def)
  qed
  moreover have "sorted_wrt le (map node (edges r))"
    if "\<not> bw" and "sorted_wrt le docs" for le
    using nodes that by (simp add: slice0_def sorted_wrt_take)
  ultimately show ?thesis
    using nodes by blast
qed

theorem backward_page_reversed_witness:
  "sorted_wrt (\<lambda>a b. idOf b \<le> idOf a) backwardDocs
     \<and> map node (edges backwardPage) = rev (slice0 backwardDocs 2)
     \<and> map node (edges backwardPage) = [doc 2 ''b'', doc 3 ''c'']
     \<and> sorted_wrt (\<lambda>a b. idOf a \<le> idOf b) (map node (edges backwardPage))"
proof -
  have desc: "sorted_wrt (\<lambda>a b. idOf b \<le> idOf a) backwardDocs"
    by (simp add: backwardDocs_def idOf_def doc_def)
  have nodes: "map node (edges backwardPage) = [doc 2 ''b'', doc 3 ''c'']"
    by (simp add: backwardPage_def)
  note inst = backward_page_reversed [OF backward_normalized backward_fetched backward_page]
  from inst have rev: "map node (edges backwardPage) = rev (slice0 backwardDocs 2)"
    by simp
  from inst have "True \<longrightarrow> (\<forall>le. sorted_wrt (\<lambda>a b. le b a) backwardDocs
      \<longrightarrow> sorted_wrt le (map node (edges backwardPage)))"
    by (rule conjunct2 [THEN conjunct1])
  then have "sorted_wrt (\<lambda>a b. idOf b \<le> idOf a) backwardDocs
      \<longrightarrow> sorted_wrt (\<lambda>a b. idOf a \<le> idOf b) (map node (edges backwardPage))"
    by (rule mp [OF _ TrueI, THEN spec])
  with desc have "sorted_wrt (\<lambda>a b. idOf a \<le> idOf b) (map node (edges backwardPage))"
    by (rule mp [rotated])
  with desc nodes rev show ?thesis
    by blast
qed



text \<open>
  C6. The data query of a call is the caller's pipeline followed by four stages, in this
  order: a \<^verbatim>\<open>$match\<close> with the range filter built from the cursor, or with the empty
  filter when the normaliser returned no cursor; a \<^verbatim>\<open>$skip\<close> of the caller's \<^verbatim>\<open>skip\<close>, or
  of 0; a \<^verbatim>\<open>$sort\<close> by the normalised sort; a \<^verbatim>\<open>$limit\<close> of \<open>limit + 1\<close>. A call that
  returns got its documents as the answer to these stages, and the outcome of a call
  depends on the data source through its answers to the count and to these stages only.
\<close>

theorem data_query_stages:
  assumes "normalized u p = Inr (limit, cur, s, bw)"
    and "stages = pipeline p @
           [Match (case cur of Some c \<Rightarrow> Query (buildQueryFromCursor u s c) | None \<Rightarrow> EmptyFilter),
            Skip (case skip p of Some n \<Rightarrow> n | None \<Rightarrow> 0),
            SortStage s,
            Limit (limit + 1)]"
  shows "(\<forall>r. aggregatePaginated u c p = Inr r \<longrightarrow>
            (\<exists>docs. aggregate c stages = Inr docs
               \<and> map node (edges r) = desiredDocuments docs limit bw))
       \<and> (\<forall>c'. countDocuments c' (Filters (spread (pipeline p)))
                  = countDocuments c (Filters (spread (pipeline p)))
              \<and> aggregate c' stages = aggregate c stages
             \<longrightarrow> aggregatePaginated u c' p = aggregatePaginated u c p)"
proof -
  have stages: "dataQuery u p limit cur s = stages"
    by (simp add: assms(2) dataQuery_def)
  have "\<exists>docs. aggregate c stages = Inr docs \<and> map node (edges r) = desiredDocuments docs limit bw"
    if r: "aggregatePaginated u c p = Inr r" for r
  proof -
    from answered [OF r assms(1)] obtain docs
      where d: "aggregate c (dataQuery u p limit cur s) = Inr docs"
      by blast
    from returned_nodes [OF assms(1) d r] d stages show ?thesis
      by auto
  qed
  moreover have "aggregatePaginated u c' p = aggregatePaginated u c p"
    if "countDocuments c' (Filters (spread (pipeline p)))
          = countDocuments c (Filters (spread (pipeline p)))"
      and "aggregate c' stages = aggregate c stages" for c'
    using that assms(1) unfolding assms(2)
    by (auto simp: aggregatePaginated_def normalized_def split: sum.splits)
  ultimately show ?thesis
    by blast
qed

theorem data_query_stages_witness:
  "aggregate (cannedCollection 10 backwardStages backwardDocs)
       [Custom (),
        Match (Query (buildQueryFromCursor specUtils [(''name'', - 1), (''_id'', - 1)]
                        [(''name'', VString ''d''), (''_id'', VNumber 4)])),
        Skip 0, SortStage [(''name'', - 1), (''_id'', - 1)], Limit (2 + 1)] = Inr backwardDocs
     \<and> map node (edges backwardPage) = desiredDocuments backwardDocs 2 True
     \<and> aggregatePaginated specUtils
         \<lparr>countDocuments = (\<lambda>f. Inr 10),
          aggregate = (\<lambda>stages. if stages = backwardStages then Inr backwardDocs else Inr [])\<rparr>
         backwardCall = Inr backwardPage"
proof -
  let ?stages = "[Custom (),
        Match (Query (buildQueryFromCursor specUtils [(''name'', - 1), (''_id'', - 1)]
                        [(''name'', VString ''d''), (''_id'', VNumber 4)])),
        Skip 0, SortStage [(''name'', - 1), (''_id'', - 1)], Limit (2 + 1)]"
  let ?c = "cannedCollection 10 backwardStages backwardDocs"
  let ?c' = "\<lparr>countDocuments = (\<lambda>f. Inr 10),
          aggregate = (\<lambda>stages. if stages = backwardStages then Inr backwardDocs else Inr [])\<rparr>
          :: (unit, RangeQuery, Document) Collection"
  have stages: "?stages = pipeline backwardCall @
           [Match (case Some [(''name'', VString ''d''), (''_id'', VNumber 4)] of
                     Some c \<Rightarrow> Query (buildQueryFromCursor specUtils
                                        [(''name'', - 1), (''_id'', - 1)] c)
                   | None \<Rightarrow> EmptyFilter),
            Skip (case skip backwardCall of Some n \<Rightarrow> n | None \<Rightarrow> 0),
            SortStage [(''name'', - 1), (''_id'', - 1)],
            Limit (2 + 1)]"
    by (simp add: backwardCall_def request_def)
  have same: "?stages = backwardStages"
    by code_simp
  note inst = data_query_stages [OF backward_normalized stages, of ?c]
  from inst backward_page obtain docs
    where d: "aggregate ?c ?stages = Inr docs"
      and n: "map node (edges backwardPage) = desiredDocuments docs 2 True"
    by blast
  have fetched: "aggregate ?c ?stages = Inr backwardDocs"
    by (simp only: same canned_aggregate)
  with d have docs: "docs = backwardDocs"
    by simp
  have "countDocuments ?c' (Filters (spread (pipeline backwardCall)))
          = countDocuments ?c (Filters (spread (pipeline backwardCall)))"
    by (simp add: canned_count)
  moreover have "aggregate ?c' ?stages = aggregate ?c ?stages"
    by (simp only: same canned_aggregate) simp
  ultimately have "aggregatePaginated specUtils ?c' backwardCall
      = aggregatePaginated specUtils ?c backwardCall"
    using inst by blast
  with fetched n docs backward_page show ?thesis
    by simp
qed

text \<open>
  C10. A forward call without \<^verbatim>\<open>after\<close> reports no previous page, whatever \<^verbatim>\<open>skip\<close> it
  was given: the skipped documents that precede the page do not show in the flag.
\<close>

theorem no_previous_page_despite_skip:
  assumes "first p = Some n"
    and "after p = None"
    and "normalized u p = Inr (limit, cur, s, False)"
    and "aggregatePaginated u c (p\<lparr>skip := sk\<rparr>) = Inr r"
  shows "hasPreviousPage (pageInfo r) = False"
proof -
  have n: "normalized u (p\<lparr>skip := sk\<rparr>) = Inr (limit, cur, s, False)"
    by (simp add: normalized_skip assms(3))
  from answered [OF assms(4) n] obtain docs
    where d: "aggregate c (dataQuery u (p\<lparr>skip := sk\<rparr>) limit cur s) = Inr docs"
    by blast
  from returned_flags [OF n d assms(4)] assms(2) show ?thesis
    by (simp add: Boolean_def)
qed

theorem no_previous_page_despite_skip_witness:
  "first forwardCall = Some 2 \<and> after forwardCall = None
     \<and> aggregatePaginated specUtils
         (cannedCollection 10
            [Custom (), Match EmptyFilter, Skip 2, SortStage [(''_id'', 1)], Limit 3]
            [doc 3 ''c'', doc 4 ''d'', doc 5 ''e''])
         (forwardCall\<lparr>skip := Some 2\<rparr>)
         = Inr \<lparr>edges = [\<lparr>cursor = ''MzpfaWRuKzM7'', node = doc 3 ''c''\<rparr>,
                          \<lparr>cursor = ''MzpfaWRuKzQ7'', node = doc 4 ''d''\<rparr>],
                pageInfo = \<lparr>count = 2, totalCount = 10, startCursor = Some ''MzpfaWRuKzM7'',
                  endCursor = Some ''MzpfaWRuKzQ7'', hasPreviousPage = False,
                  hasNextPage = True\<rparr>\<rparr>"
proof -
  let ?r = "\<lparr>edges = [\<lparr>cursor = ''MzpfaWRuKzM7'', node = doc 3 ''c''\<rparr>,
                          \<lparr>cursor = ''MzpfaWRuKzQ7'', node = doc 4 ''d''\<rparr>],
                pageInfo = \<lparr>count = 2, totalCount = 10, startCursor = Some ''MzpfaWRuKzM7'',
                  endCursor = Some ''MzpfaWRuKzQ7'', hasPreviousPage = False,
                  hasNextPage = True\<rparr>\<rparr>"
  have f: "first forwardCall = Some 2" and a: "after forwardCall = None"
    by (simp_all add: forwardCall_def request_def)
  have page: "aggregatePaginated specUtils
         (cannedCollection 10
            [Custom (), Match EmptyFilter, Skip 2, SortStage [(''_id'', 1)], Limit 3]
            [doc 3 ''c'', doc 4 ''d'', doc 5 ''e''])
         (forwardCall\<lparr>skip := Some 2\<rparr>) = Inr ?r"
    by code_simp
  from no_previous_page_despite_skip [OF f a forward_normalized page]
  have "hasPreviousPage (pageInfo ?r) = False" .
  with f a page show ?thesis
    by simp
qed

text \<open>
  C7, as the code has it. When the data query matches no document, the page has no
  edges, no start and no end cursor, and a count of 0. On a forward call
  \<^verbatim>\<open>hasNextPage\<close> is false and \<^verbatim>\<open>hasPreviousPage\<close> is \<^verbatim>\<open>Boolean(after)\<close>. On a backward
  call it is \<^verbatim>\<open>hasPreviousPage\<close> that is false, being the overfetch signal, and
  \<^verbatim>\<open>hasNextPage\<close> that is \<^verbatim>\<open>Boolean(before)\<close>.
\<close>

theorem empty_page:
  assumes "normalized u p = Inr (limit, cur, s, bw)"
    and "aggregate c (dataQuery u p limit cur s) = Inr []"
    and "aggregatePaginated u c p = Inr r"
  shows "edges r = []
       \<and> count (pageInfo r) = 0
       \<and> startCursor (pageInfo r) = None
       \<and> endCursor (pageInfo r) = None
       \<and> hasPreviousPage (pageInfo r) = (if bw then False else Boolean (after p))
       \<and> hasNextPage (pageInfo r) = (if bw then Boolean (before p) else False)"
proof -
  from answered [OF assms(3) assms(1)] obtain k
    where k: "countDocuments c (countQuery p) = Inr k"
    by blast
  have none: "desiredDocuments [] limit bw = []"
    by (simp add: desiredDocuments_eq)
  from aggregatePaginated_run [OF assms(1) k assms(2)] assms(3)
  have "r = \<lparr>edges = [],
         pageInfo =
           \<lparr>count = 0, totalCount = k, startCursor = None, endCursor = None,
            hasPreviousPage = (if bw then False else Boolean (after p)),
            hasNextPage = (if bw then Boolean (before p) else False)\<rparr>\<rparr>"
    by (simp add: none hasMore_iff index_def)
  then show ?thesis
    by simp
qed

theorem empty_page_witness:
  "normalized specUtils (forwardCall\<lparr>after := Some ''MzpfaWRuKzM7''\<rparr>)
       = Inr (2, Some [(''_id'', VNumber 3)], [(''_id'', 1)], False)
     \<and> Boolean (after (forwardCall\<lparr>after := Some ''MzpfaWRuKzM7''\<rparr>))
     \<and> aggregatePaginated specUtils
         (cannedCollection 3
            [Custom (), Match (Query [[FieldGt ''_id'' (VNumber 3)]]), Skip 0,
             SortStage [(''_id'', 1)], Limit 3] [])
         (forwardCall\<lparr>after := Some ''MzpfaWRuKzM7''\<rparr>)
         = Inr \<lparr>edges = [],
                pageInfo = \<lparr>count = 0, totalCount = 3, startCursor = None, endCursor = None,
                  hasPreviousPage = True, hasNextPage = False\<rparr>\<rparr>"
proof -
  let ?p = "forwardCall\<lparr>after := Some ''MzpfaWRuKzM7''\<rparr>"
  let ?q = "[Custom (), Match (Query [[FieldGt ''_id'' (VNumber 3)]]), Skip 0,
             SortStage [(''_id'', 1)], Limit 3] :: (unit, RangeQuery) stage list"
  let ?c = "cannedCollection 3 ?q [] :: (unit, RangeQuery, Document) Collection"
  let ?r = "\<lparr>edges = [],
                pageInfo = \<lparr>count = 0, totalCount = 3, startCursor = None, endCursor = None,
                  hasPreviousPage = True, hasNextPage = False\<rparr>\<rparr>
            :: Document AggregatePaginatedResult"
  have n: "normalized specUtils ?p = Inr (2, Some [(''_id'', VNumber 3)], [(''_id'', 1)], False)"
    by code_simp
  have q: "dataQuery specUtils ?p 2 (Some [(''_id'', VNumber 3)]) [(''_id'', 1)] = ?q"
    by code_simp
  have d: "aggregate ?c (dataQuery specUtils ?p 2 (Some [(''_id'', VNumber 3)]) [(''_id'', 1)])
      = Inr []"
    by (simp only: q canned_aggregate)
  have page: "aggregatePaginated specUtils ?c ?p = Inr ?r"
    by code_simp
  have b: "Boolean (after ?p)"
    by code_simp
  from empty_page [OF n d page] b
  have "hasPreviousPage (pageInfo ?r) \<and> \<not> hasNextPage (pageInfo ?r) \<and> edges ?r = []"
    by simp
  with n b page show ?thesis
    by simp
qed

text \<open>
  C7 as stated fails on the backward call on a data source with nothing before the cursor: \<^verbatim>\<open>before\<close> is
  supplied, and \<^verbatim>\<open>hasPreviousPage\<close> is false all the same; \<^verbatim>\<open>before\<close> shows in
  \<^verbatim>\<open>hasNextPage\<close>.
\<close>

theorem empty_page_backward_counterexample:
  "aggregatePaginated specUtils (cannedCollection 10 backwardStages []) backwardCall
       = Inr \<lparr>edges = [],
              pageInfo = \<lparr>count = 0, totalCount = 10, startCursor = None, endCursor = None,
                hasPreviousPage = False, hasNextPage = True\<rparr>\<rparr>
     \<and> normalized specUtils backwardCall
         = Inr (2, Some [(''name'', VString ''d''), (''_id'', VNumber 4)],
                [(''name'', - 1), (''_id'', - 1)], True)
     \<and> before backwardCall = Some ''NDpuYW1lczE6ZDM6X2lkbis0Ow''
     \<and> Boolean (before backwardCall)"
  by code_simp

text \<open>
  C1, as the code has it. Each edge's cursor encodes the position that \<^verbatim>\<open>buildCursor\<close>
  extracts from the edge's document with the SortSpec the normaliser returned. With a
  normaliser that keeps the fields of the caller's SortSpec and appends the tie-break
  field when it is missing, and a \<^verbatim>\<open>buildCursor\<close> that reads the field names only, this
  is the position under the caller's original SortSpec with the tie-break field, not
  inverted, on a backward call as on a forward one. The helpers the specification describes
  are such helpers.
\<close>

theorem edge_cursors:
  assumes "normalized u p = Inr (limit, cur, s, bw)"
    and "aggregatePaginated u c p = Inr r"
  shows "edges r =
           map (\<lambda>d. \<lparr>cursor = encodeCursor u (buildCursor u d s), node = d\<rparr>) (map node (edges r))
       \<and> (map fst s = map fst (withTieBreak (originalSort p))
            \<and> (\<forall>d a b. map fst a = map fst b \<longrightarrow> buildCursor u d a = buildCursor u d b)
          \<longrightarrow> edges r =
                map (\<lambda>d. \<lparr>cursor = encodeCursor u
                                      (buildCursor u d (withTieBreak (originalSort p))),
                          node = d\<rparr>)
                  (map node (edges r)))
       \<and> (\<forall>c' p' r'. aggregatePaginated specUtils c' p' = Inr r' \<longrightarrow>
            edges r' =
              map (\<lambda>d. \<lparr>cursor = encodeCursor specUtils
                                    (buildCursor specUtils d (withTieBreak (originalSort p'))),
                        node = d\<rparr>)
                (map node (edges r')))"
proof -
  from answered [OF assms(2) assms(1)] obtain k docs
    where k: "countDocuments c (countQuery p) = Inr k"
      and d: "aggregate c (dataQuery u p limit cur s) = Inr docs"
    by blast
  from aggregatePaginated_run [OF assms(1) k d] assms(2)
  have active: "edges r =
      map (\<lambda>d. \<lparr>cursor = encodeCursor u (buildCursor u d s), node = d\<rparr>) (map node (edges r))"
    by (auto simp: comp_def)
  have "edges r =
      map (\<lambda>d. \<lparr>cursor = encodeCursor u (buildCursor u d (withTieBreak (originalSort p))),
                node = d\<rparr>)
        (map node (edges r))"
    if fields: "map fst s = map fst (withTieBreak (originalSort p))"
      and reads: "\<forall>d a b. map fst a = map fst b \<longrightarrow> buildCursor u d a = buildCursor u d b"
  proof -
    have "(\<lambda>d. \<lparr>cursor = encodeCursor u (buildCursor u d s), node = d\<rparr>)
        = (\<lambda>d. \<lparr>cursor = encodeCursor u (buildCursor u d (withTieBreak (originalSort p))),
                  node = d\<rparr>)"
      by (rule ext) (simp add: reads [rule_format, OF fields])
    then show ?thesis
      by (rule subst) (rule active)
  qed
  then have "map fst s = map fst (withTieBreak (originalSort p))
        \<and> (\<forall>d a b. map fst a = map fst b \<longrightarrow> buildCursor u d a = buildCursor u d b)
      \<longrightarrow> edges r =
            map (\<lambda>d. \<lparr>cursor = encodeCursor u
                                  (buildCursor u d (withTieBreak (originalSort p))),
                      node = d\<rparr>)
              (map node (edges r))"
    by (intro impI) (elim conjE)
  moreover have "\<forall>c' p' r'. aggregatePaginated specUtils c' p' = Inr r' \<longrightarrow>
      edges r' =
        map (\<lambda>d. \<lparr>cursor = encodeCursor specUtils
                              (buildCursor specUtils d (withTieBreak (originalSort p'))),
                  node = d\<rparr>)
          (map node (edges r'))"
  proof (intro allI impI)
    fix c' p' r'
    assume "aggregatePaginated specUtils c' p' = Inr r'"
    from spec_edge_cursors [OF this] show "edges r' =
        map (\<lambda>d. \<lparr>cursor = encodeCursor specUtils
                              (buildCursor specUtils d (withTieBreak (originalSort p'))),
                  node = d\<rparr>)
          (map node (edges r'))"
      by (simp only: specUtils_def Utils.simps)
  qed
  ultimately show ?thesis
    using active by (intro conjI)
qed

theorem edge_cursors_witness:
  "normalized specUtils backwardCall
       = Inr (2, Some [(''name'', VString ''d''), (''_id'', VNumber 4)],
              [(''name'', - 1), (''_id'', - 1)], True)
     \<and> withTieBreak (originalSort backwardCall) = [(''name'', 1), (''_id'', 1)]
     \<and> edges backwardPage =
         [\<lparr>cursor = encodeCursor specUtils
                      (buildCursor specUtils (doc 2 ''b'') [(''name'', 1), (''_id'', 1)]),
           node = doc 2 ''b''\<rparr>,
          \<lparr>cursor = encodeCursor specUtils
                      (buildCursor specUtils (doc 3 ''c'') [(''name'', 1), (''_id'', 1)]),
           node = doc 3 ''c''\<rparr>]"
proof -
  have nodes: "map node (edges backwardPage) = [doc 2 ''b'', doc 3 ''c'']"
    by (simp add: backwardPage_def)
  have total: "withTieBreak (originalSort backwardCall) = [(''name'', 1), (''_id'', 1)]"
    by code_simp
  have fields: "map fst [(''name'', - 1), (''_id'', - 1 :: int)]
      = map fst (withTieBreak (originalSort backwardCall))"
    by (simp add: total)
  have reads: "\<forall>d a b. map fst a = map fst b
      \<longrightarrow> buildCursor specUtils d a = buildCursor specUtils d b"
  proof (intro allI impI)
    fix d :: Document and a b :: Sort
    assume "map fst a = map fst b"
    then have "specBuildCursor d a = specBuildCursor d b"
      by (rule specBuildCursor_fields)
    then show "buildCursor specUtils d a = buildCursor specUtils d b"
      by (simp add: specUtils_def)
  qed
  from edge_cursors [OF backward_normalized backward_page, THEN conjunct2, THEN conjunct1,
      THEN mp, OF conjI, OF fields reads]
  have "edges backwardPage =
      map (\<lambda>d. \<lparr>cursor = encodeCursor specUtils
                   (buildCursor specUtils d (withTieBreak (originalSort backwardCall))),
                node = d\<rparr>)
        (map node (edges backwardPage))" .
  then have "edges backwardPage =
      map (\<lambda>d. \<lparr>cursor = encodeCursor specUtils
                   (buildCursor specUtils d [(''name'', 1), (''_id'', 1)]), node = d\<rparr>)
        [doc 2 ''b'', doc 3 ''c'']"
    unfolding nodes total .
  with backward_normalized total show ?thesis
    by simp
qed

text \<open>
  C1 as stated fails where the caller's SortSpec lacks the tie-break field, here on the
  backward call under the caller's sort by name, with the helpers the specification
  describes. The cursor of the first edge holds \<^verbatim>\<open>name\<close> and \<^verbatim>\<open>_id\<close>: it is the encoding of
  the position under the caller's SortSpec with the tie-break field, not inverted. The
  position under the caller's original SortSpec holds \<^verbatim>\<open>name\<close> alone and encodes to another
  string.
\<close>

theorem edge_cursor_original_sort_counterexample:
  "aggregatePaginated specUtils (cannedCollection 10 backwardStages backwardDocs) backwardCall
       = Inr backwardPage
     \<and> originalSort backwardCall = [(''name'', 1)]
     \<and> edges backwardPage ! 0 = \<lparr>cursor = ''NDpuYW1lczE6YjM6X2lkbisyOw'', node = doc 2 ''b''\<rparr>
     \<and> encodeCursor specUtils (buildCursor specUtils (doc 2 ''b'') (originalSort backwardCall))
         = ''NDpuYW1lczE6Yg''
     \<and> cursor (edges backwardPage ! 0)
         \<noteq> encodeCursor specUtils
             (buildCursor specUtils (node (edges backwardPage ! 0)) (originalSort backwardCall))
     \<and> cursor (edges backwardPage ! 0)
         = encodeCursor specUtils
             (buildCursor specUtils (node (edges backwardPage ! 0))
                (withTieBreak (originalSort backwardCall)))"
  by code_simp

section \<open>The cursor codec of the specification\<close>

subsection \<open>Decimal numbers\<close>

lemma digitChar_isDigit: "d < 10 \<Longrightarrow> isDigit (digitChar d)"
proof -
  assume "d < 10"
  then have "d \<in> {0, 1, 2, 3, 4, 5, 6, 7, 8, 9}"
    by auto
  then show ?thesis
    by (auto simp: isDigit_def digitChar_def)
qed

lemma digitVal_digitChar: "d < 10 \<Longrightarrow> digitVal (digitChar d) = d"
proof -
  assume "d < 10"
  then have "d \<in> {0, 1, 2, 3, 4, 5, 6, 7, 8, 9}"
    by auto
  then show ?thesis
    by (auto simp: digitVal_def digitChar_def upt_rec)
qed

lemma digits_isDigit: "\<forall>c \<in> set (digits n). isDigit c"
proof (induction n rule: digits.induct)
  case (1 n)
  show ?case
  proof (cases "n < 10")
    case True
    then show ?thesis
      by (subst digits.simps) (simp add: digitChar_isDigit)
  next
    case False
    with 1 show ?thesis
      by (subst digits.simps) (simp add: digitChar_isDigit)
  qed
qed

lemma readDigits_append:
  assumes "\<forall>c \<in> set ds. isDigit c"
  shows "readDigits acc (ds @ rest) = readDigits (foldl (\<lambda>a c. 10 * a + digitVal c) acc ds) rest"
  using assms by (induction ds arbitrary: acc) simp_all

lemma foldl_digits: "foldl (\<lambda>a c. 10 * a + digitVal c) 0 (digits n) = n"
proof (induction n rule: digits.induct)
  case (1 n)
  show ?case
  proof (cases "n < 10")
    case True
    then show ?thesis
      by (subst digits.simps) (simp add: digitVal_digitChar)
  next
    case False
    with 1 show ?thesis
      by (subst digits.simps) (simp add: digitVal_digitChar)
  qed
qed

lemma readDigits_digits:
  assumes "\<not> isDigit c"
  shows "readDigits 0 (digits n @ c # rest) = (n, c # rest)"
  using assms by (simp add: readDigits_append digits_isDigit foldl_digits)

subsection \<open>Strings, integers, values and fields\<close>

lemma decString_encString: "decString (encString s @ rest) = Some (s, rest)"
proof -
  have "\<not> isDigit CHR '':''"
    by (simp add: isDigit_def)
  then have "readDigits 0 (digits (length s) @ CHR '':'' # (s @ rest)) = (length s, CHR '':'' # (s @ rest))"
    by (rule readDigits_digits)
  then show ?thesis
    by (simp add: decString_def encString_def)
qed

lemma decInt_encInt: "decInt (encInt i @ rest) = Some (i, rest)"
proof -
  have "\<not> isDigit CHR '';''"
    by (simp add: isDigit_def)
  then have "readDigits 0 (digits n @ CHR '';'' # rest) = (n, CHR '';'' # rest)" for n
    by (rule readDigits_digits)
  then show ?thesis
    by (simp add: decInt_def encInt_def)
qed

lemma decValue_encValue: "decValue (encValue v @ rest) = Some (v, rest)"
  by (cases v) (simp_all add: decValue_def decInt_encInt decString_encString)

lemma decField_encField: "decField (encField kv @ rest) = Some (kv, rest)"
  by (simp add: decField_def encField_def decString_encString decValue_encValue)

lemma encField_not_empty: "encField kv \<noteq> []"
  by (simp add: encField_def encString_def)

lemma deserialize_serialize: "deserialize (serialize p) = Some p"
proof (induction p)
  case Nil
  show ?case
    by (subst deserialize.simps) (simp add: serialize_def)
next
  case (Cons kv p)
  have "serialize (kv # p) = encField kv @ serialize p"
    by (simp add: serialize_def)
  moreover have "encField kv @ serialize p \<noteq> []"
    by (simp add: encField_not_empty)
  ultimately show ?case
    using Cons.IH by (subst deserialize.simps) (simp add: decField_encField)
qed

subsection \<open>Base64\<close>

lemma b64Index_b64Char: "n < 64 \<Longrightarrow> b64Index (b64Char n) = Some n"
proof -
  have distinct: "distinct b64Alphabet"
    by (simp add: b64Alphabet_def)
  have len: "length b64Alphabet = 64"
    by (simp add: b64Alphabet_def)
  assume n: "n < 64"
  have "map_of (zip b64Alphabet [0 ..< 64]) (b64Alphabet ! n) = Some ([0 ..< 64] ! n)"
    using distinct len n by (intro map_of_zip_nth) simp_all
  with n show ?thesis
    by (simp add: b64Index_def b64Char_def)
qed

lemma sextets_of_one:
  fixes a :: nat
  assumes "a < 256"
  shows "a div 4 < 64" and "(a mod 4) * 16 < 64"
    and "(a div 4) * 4 + ((a mod 4) * 16) div 16 = a"
  using assms by simp_all

lemma sextets_of_two:
  fixes a b :: nat
  assumes "a < 256" and "b < 256"
  shows "(a mod 4) * 16 + b div 16 < 64" and "(b mod 16) * 4 < 64"
    and "(a div 4) * 4 + ((a mod 4) * 16 + b div 16) div 16 = a"
    and "(((a mod 4) * 16 + b div 16) mod 16) * 16 + ((b mod 16) * 4) div 4 = b"
proof -
  from assms(2) have b: "b div 16 < 16"
    by simp
  have a: "a mod 4 < 4"
    by simp
  from a b show "(a mod 4) * 16 + b div 16 < 64"
    by linarith
  show "(b mod 16) * 4 < 64"
    by simp
  from b have d: "((a mod 4) * 16 + b div 16) div 16 = a mod 4"
    by simp
  then show "(a div 4) * 4 + ((a mod 4) * 16 + b div 16) div 16 = a"
    by simp
  from b have "((a mod 4) * 16 + b div 16) mod 16 = b div 16"
    by simp
  then show "(((a mod 4) * 16 + b div 16) mod 16) * 16 + ((b mod 16) * 4) div 4 = b"
    by simp
qed

lemma sextets_of_three:
  fixes b c :: nat
  assumes "b < 256" and "c < 256"
  shows "(b mod 16) * 4 + c div 64 < 64" and "c mod 64 < 64"
    and "(((a mod 4) * 16 + b div 16) mod 16) * 16 + ((b mod 16) * 4 + c div 64) div 4 = b"
    and "(((b mod 16) * 4 + c div 64) mod 4) * 64 + c mod 64 = c"
proof -
  from assms(2) have c: "c div 64 < 4"
    by simp
  from assms(1) have b: "b div 16 < 16"
    by simp
  have m: "b mod 16 < 16"
    by simp
  from m c show "(b mod 16) * 4 + c div 64 < 64"
    by linarith
  show "c mod 64 < 64"
    by simp
  from b have "((a mod 4) * 16 + b div 16) mod 16 = b div 16"
    by simp
  moreover from c have "((b mod 16) * 4 + c div 64) div 4 = b mod 16"
    by simp
  ultimately show "(((a mod 4) * 16 + b div 16) mod 16) * 16 + ((b mod 16) * 4 + c div 64) div 4 = b"
    by simp
  from c have "((b mod 16) * 4 + c div 64) mod 4 = c div 64"
    by simp
  then show "(((b mod 16) * 4 + c div 64) mod 4) * 64 + c mod 64 = c"
    by simp
qed

lemma b64Decode_Cons4:
  assumes "x < 64" and "y < 64" and "z < 64" and "w < 64"
  shows "b64Decode (b64Char x # b64Char y # b64Char z # b64Char w # s) =
     (case b64Decode s of
        None \<Rightarrow> None
      | Some bytes \<Rightarrow>
          Some ([x * 4 + y div 16, (y mod 16) * 16 + z div 4, (z mod 4) * 64 + w] @ bytes))"
  using assms by (simp add: b64Decode_def b64Index_b64Char split: option.splits)

lemma b64Decode_b64Encode:
  assumes "\<forall>b \<in> set bytes. b < 256"
  shows "b64Decode (b64Encode bytes) = Some bytes"
  using assms
proof (induction bytes rule: b64Encode.induct)
  case 1
  show ?case
    by (simp add: b64Decode_def)
next
  case (2 a)
  then have "a < 256"
    by simp
  from sextets_of_one [OF this] show ?case
    by (simp add: b64Decode_def b64Index_b64Char)
next
  case (3 a b)
  then have "a < 256" and "b < 256"
    by simp_all
  from sextets_of_one(1) [OF this(1)] sextets_of_two [OF this] show ?case
    by (simp add: b64Decode_def b64Index_b64Char)
next
  case (4 a b c rest)
  then have a: "a < 256" and b: "b < 256" and c: "c < 256"
    and rest: "b64Decode (b64Encode rest) = Some rest"
    by simp_all
  from sextets_of_one(1) [OF a] sextets_of_two(1,3) [OF a b] sextets_of_three [OF b c] rest
  show ?case
    by (simp add: b64Decode_Cons4)
qed

subsection \<open>The round trip\<close>

lemma chars_of_bytes: "map char_of (map (of_char :: char \<Rightarrow> nat) s) = s"
  by (induction s) simp_all

lemma specDecodeCursor_specEncodeCursor: "specDecodeCursor (specEncodeCursor p) = Inr p"
proof -
  have "\<forall>b \<in> set (map (of_char :: char \<Rightarrow> nat) (serialize p)). b < 256"
    by simp
  then have "b64Decode (b64Encode (map of_char (serialize p))) = Some (map of_char (serialize p))"
    by (rule b64Decode_b64Encode)
  then show ?thesis
    by (simp add: specDecodeCursor_def specEncodeCursor_def chars_of_bytes deserialize_serialize)
qed

text \<open>
  C8, for the codec modelled from the specification. Decoding the encoding of a position
  yields the position: for every position, and so for the position \<^verbatim>\<open>buildCursor\<close>
  extracts from any document under any SortSpec.
\<close>

theorem cursor_round_trip:
  "specDecodeCursor (specEncodeCursor p) = Inr p
     \<and> specDecodeCursor (specEncodeCursor (specBuildCursor document sortSpec))
         = Inr (specBuildCursor document sortSpec)"
  by (simp add: specDecodeCursor_specEncodeCursor)


theorem cursor_round_trip_witness:
  "specEncodeCursor [(''name'', VString ''d''), (''_id'', VNumber 4)] = ''NDpuYW1lczE6ZDM6X2lkbis0Ow''
     \<and> specDecodeCursor ''NDpuYW1lczE6ZDM6X2lkbis0Ow''
         = Inr [(''name'', VString ''d''), (''_id'', VNumber 4)]"
proof -
  have enc: "specEncodeCursor [(''name'', VString ''d''), (''_id'', VNumber 4)]
      = ''NDpuYW1lczE6ZDM6X2lkbis0Ow''"
    by code_simp
  from cursor_round_trip [of "[(''name'', VString ''d''), (''_id'', VNumber 4)]"]
  have "specDecodeCursor (specEncodeCursor [(''name'', VString ''d''), (''_id'', VNumber 4)])
      = Inr [(''name'', VString ''d''), (''_id'', VNumber 4)]"
    by (rule conjunct1)
  with enc show ?thesis
    by simp
qed

end
